theory Spec2Isabelle
  imports Main
begin

section \<open>Python values and how they print\<close>

text \<open>
  The agent in \<^verbatim>\<open>chat_agent.py\<close> moves Python literal values between text and
  structure. The values modelled here are the ones JSON knows: \<^verbatim>\<open>None\<close>, the booleans,
  unbounded integers, strings, lists and dicts. A string is a list of characters with
  code points below 256. A dict is an association list in insertion order whose keys
  are pairwise different as Python compares them. Floats, complex numbers, bytes,
  tuples and sets are not modelled.
\<close>

datatype pyval =
    PNone
  | PBool bool
  | PInt int
  | PStr string
  | PList "pyval list"
  | PDict "(pyval \<times> pyval) list"

datatype py_error =
    LiteralError     \<comment> \<open>whatever \<^verbatim>\<open>ast.literal_eval\<close> raises on a source it rejects\<close>
  | KeyError pyval
  | TypeError
  | IndexError
  | AssertionError
  | ModelInvocationError

subsection \<open>Decimal digits\<close>

definition digit_char :: "nat \<Rightarrow> char" where
  "digit_char d = char_of (48 + d)"

definition is_digit :: "char \<Rightarrow> bool" where
  "is_digit c = (48 \<le> (of_char c :: nat) \<and> (of_char c :: nat) \<le> 57)"

definition digit_val :: "char \<Rightarrow> nat" where
  "digit_val c = of_char c - 48"

fun digits_of :: "nat \<Rightarrow> string" where
  "digits_of n = (if n < 10 then [digit_char n] else digits_of (n div 10) @ [digit_char (n mod 10)])"

declare digits_of.simps [simp del]

definition nat_of_digits :: "string \<Rightarrow> nat" where
  "nat_of_digits ds = foldl (\<lambda>a c. 10 * a + digit_val c) 0 ds"

definition int_repr :: "int \<Rightarrow> string" where
  "int_repr i = (if i < 0 then CHR ''-'' # digits_of (nat (- i)) else digits_of (nat i))"

subsection \<open>\<^verbatim>\<open>repr\<close> of a string\<close>

text \<open>
  Python quotes a string with single quotes, unless it holds a single quote and no
  double quote. The quote character and the backslash are escaped with a backslash,
  tab, newline and carriage return print as \<^verbatim>\<open>\t\<close>, \<^verbatim>\<open>\n\<close>, \<^verbatim>\<open>\r\<close>, and every other
  character that is not printable prints as \<^verbatim>\<open>\xhh\<close> with two lower-case hex digits.
  Below 256 the printable characters are 32 to 126 and 161 to 255 without 173.
\<close>

definition hex_char :: "nat \<Rightarrow> char" where
  "hex_char d = (if d < 10 then char_of (48 + d) else char_of (87 + d))"

definition printable :: "char \<Rightarrow> bool" where
  "printable c = (let n = (of_char c :: nat) in (32 \<le> n \<and> n < 127) \<or> (161 \<le> n \<and> n \<noteq> 173))"

definition repr_char :: "char \<Rightarrow> char \<Rightarrow> string" where
  "repr_char q c =
     (if c = q \<or> c = CHR 0x5C then [CHR 0x5C, c]
      else if c = CHR 0x09 then [CHR 0x5C, CHR ''t'']
      else if c = CHR 0x0A then [CHR 0x5C, CHR ''n'']
      else if c = CHR 0x0D then [CHR 0x5C, CHR ''r'']
      else if \<not> printable c then
        [CHR 0x5C, CHR ''x'', hex_char (of_char c div 16), hex_char (of_char c mod 16)]
      else [c])"

definition repr_quote :: "string \<Rightarrow> char" where
  "repr_quote s = (if CHR 0x27 \<in> set s \<and> CHR 0x22 \<notin> set s then CHR 0x22 else CHR 0x27)"

definition str_repr :: "string \<Rightarrow> string" where
  "str_repr s = (let q = repr_quote s in q # concat (map (repr_char q) s) @ [q])"

subsection \<open>\<^verbatim>\<open>repr\<close> and \<^verbatim>\<open>str\<close> of a value\<close>

function py_repr :: "pyval \<Rightarrow> string"
  and repr_elems :: "pyval list \<Rightarrow> string"
  and repr_items :: "(pyval \<times> pyval) list \<Rightarrow> string" where
  "py_repr PNone = ''None''"
| "py_repr (PBool b) = (if b then ''True'' else ''False'')"
| "py_repr (PInt i) = int_repr i"
| "py_repr (PStr s) = str_repr s"
| "py_repr (PList xs) = ''['' @ repr_elems xs @ '']''"
| "py_repr (PDict kvs) = ''{'' @ repr_items kvs @ ''}''"
| "repr_elems [] = []"
| "repr_elems [x] = py_repr x"
| "repr_elems (x # y # ys) = py_repr x @ '', '' @ repr_elems (y # ys)"
| "repr_items [] = []"
| "repr_items [(k, v)] = py_repr k @ '': '' @ py_repr v"
| "repr_items ((k, v) # kv # kvs) = py_repr k @ '': '' @ py_repr v @ '', '' @ repr_items (kv # kvs)"
  by pat_completeness auto
termination
  by (relation "measure (\<lambda>x. case x of
        Inl v \<Rightarrow> size v
      | Inr (Inl xs) \<Rightarrow> size_list size xs
      | Inr (Inr kvs) \<Rightarrow> size_list (size_prod size size) kvs)") auto

text \<open>\<^verbatim>\<open>str(x)\<close>, which is what an f-string field \<^verbatim>\<open>{x}\<close> inserts: a string as it is,
  every other value as its \<^verbatim>\<open>repr\<close>.\<close>

fun py_str :: "pyval \<Rightarrow> string" where
  "py_str (PStr s) = s"
| "py_str v = py_repr v"

text \<open>Truth value of a literal, as \<^verbatim>\<open>or\<close> and \<^verbatim>\<open>if\<close> test it.\<close>

fun truthy :: "pyval \<Rightarrow> bool" where
  "truthy PNone = False"
| "truthy (PBool b) = b"
| "truthy (PInt i) = (i \<noteq> 0)"
| "truthy (PStr s) = (s \<noteq> [])"
| "truthy (PList xs) = (xs \<noteq> [])"
| "truthy (PDict kvs) = (kvs \<noteq> [])"


section \<open>The delimiter pattern\<close>

text \<open>
  \<^verbatim>\<open>re.compile(r"<action>(?P<action_blob>.*?)<\/action>", re.DOTALL).search(text)\<close>.
  With \<^verbatim>\<open>DOTALL\<close> the dot matches every character, so the leftmost match starts at the
  first \<^verbatim>\<open><action>\<close> that has a \<^verbatim>\<open></action>\<close> somewhere behind it, and the lazy
  group stops at the first such \<^verbatim>\<open></action>\<close>. A closing tag behind a later opening
  tag is also behind the first one, so the match, when there is one, starts at the first
  opening tag of the text.
\<close>

fun starts_with :: "string \<Rightarrow> string \<Rightarrow> bool" where
  "starts_with [] s = True"
| "starts_with (p # ps) [] = False"
| "starts_with (p # ps) (c # cs) = (p = c \<and> starts_with ps cs)"

text \<open>\<open>find_sub pat s\<close> cuts \<open>s\<close> at the first place where \<open>pat\<close> stands: what is before
  it and what is behind it.\<close>

fun find_sub :: "string \<Rightarrow> string \<Rightarrow> (string \<times> string) option" where
  "find_sub pat [] = (if pat = [] then Some ([], []) else None)"
| "find_sub pat (c # cs) =
     (if starts_with pat (c # cs) then Some ([], drop (length pat) (c # cs))
      else (case find_sub pat cs of
              None \<Rightarrow> None
            | Some (before, behind) \<Rightarrow> Some (c # before, behind)))"

definition pattern_search :: "string \<Rightarrow> string option" where
  "pattern_search text =
     (case find_sub ''<action>'' text of
        None \<Rightarrow> None
      | Some (before, rest) \<Rightarrow>
          (case find_sub ''</action>'' rest of
             None \<Rightarrow> None
           | Some (action_blob, behind) \<Rightarrow> Some action_blob))"

section \<open>\<^verbatim>\<open>ast.literal_eval\<close>\<close>

text \<open>
  The evaluator reads a Python literal and builds the value; it runs no code. The model
  covers this fragment of the literal syntax:
  \<^item> \<^verbatim>\<open>None\<close>, \<^verbatim>\<open>True\<close>, \<^verbatim>\<open>False\<close>;
  \<^item> decimal integers without underscores, with at most one sign in front;
  \<^item> strings in single or double quotes, with the escapes \<^verbatim>\<open>\\\<close>, \<^verbatim>\<open>\'\<close>, \<^verbatim>\<open>\"\<close>,
    \<^verbatim>\<open>\a \b \f \n \r \t \v\<close>, \<^verbatim>\<open>\xhh\<close>, up to three octal digits, a backslash
    before a line feed (which joins the lines), and a backslash before any other
    character except \<^verbatim>\<open>N\<close>, \<^verbatim>\<open>u\<close>, \<^verbatim>\<open>U\<close> (both characters stay);
  \<^item> lists and dicts, with an optional comma after the last element;
  \<^item> spaces and tabs between tokens, line breaks inside brackets and after the
    literal, blank lines before it.
  On this fragment the model follows Python (3.10 and later, where \<^verbatim>\<open>literal_eval\<close>
  strips leading spaces and tabs itself): leading spaces and tabs are stripped, an
  indented first token after a blank line is an error, a line break outside brackets
  ends the expression, keys are compared as Python compares them (\<^verbatim>\<open>True\<close> and \<^verbatim>\<open>1\<close> are
  one key, the first spelling and the last value stay), a list or dict used as a key is
  an error. Everything else is answered with \<open>LiteralError\<close>: sources Python rejects
  (with \<^verbatim>\<open>SyntaxError\<close>, \<^verbatim>\<open>ValueError\<close> or \<^verbatim>\<open>TypeError\<close>), and also the literal forms left
  out of the model (floats, complex numbers, bytes, tuples, sets, parentheses, prefixed,
  triple-quoted or adjacent strings, other number bases, comments, form feeds,
  \<^verbatim>\<open>\N\<close>, \<^verbatim>\<open>\u\<close>, \<^verbatim>\<open>\U\<close>, octal escapes above 255, a backslash before a carriage
  return). The interpreter's limits on nesting depth and on the
  number of digits of an integer are not modelled either.
\<close>

datatype token =
    TLBrace | TRBrace | TLBrack | TRBrack | TComma | TColon
  | TMinus | TPlus
  | TNum nat | TStr string
  | TNone | TTrue | TFalse
  | TNewline

definition is_blank :: "char \<Rightarrow> bool" where
  "is_blank c = (c = CHR '' '' \<or> c = CHR 0x09)"

definition is_newline :: "char \<Rightarrow> bool" where
  "is_newline c = (c = CHR 0x0A \<or> c = CHR 0x0D)"

definition is_ident_char :: "char \<Rightarrow> bool" where
  "is_ident_char c =
     (let n = (of_char c :: nat) in
      (65 \<le> n \<and> n \<le> 90) \<or> (97 \<le> n \<and> n \<le> 122) \<or> (48 \<le> n \<and> n \<le> 57) \<or> n = 95 \<or> 128 \<le> n)"

definition is_octal :: "char \<Rightarrow> bool" where
  "is_octal c = (48 \<le> (of_char c :: nat) \<and> (of_char c :: nat) \<le> 55)"

definition hex_val :: "char \<Rightarrow> nat option" where
  "hex_val c =
     (let n = (of_char c :: nat) in
      if 48 \<le> n \<and> n \<le> 57 then Some (n - 48)
      else if 97 \<le> n \<and> n \<le> 102 then Some (n - 87)
      else if 65 \<le> n \<and> n \<le> 70 then Some (n - 55)
      else None)"

definition simple_escape :: "char \<Rightarrow> char option" where
  "simple_escape e =
     (if e = CHR 0x5C then Some (CHR 0x5C)
      else if e = CHR 0x27 then Some (CHR 0x27)
      else if e = CHR 0x22 then Some (CHR 0x22)
      else if e = CHR ''a'' then Some (CHR 0x07)
      else if e = CHR ''b'' then Some (CHR 0x08)
      else if e = CHR ''f'' then Some (CHR 0x0C)
      else if e = CHR ''n'' then Some (CHR 0x0A)
      else if e = CHR ''r'' then Some (CHR 0x0D)
      else if e = CHR ''t'' then Some (CHR 0x09)
      else if e = CHR ''v'' then Some (CHR 0x0B)
      else None)"

definition hex_escape :: "string \<Rightarrow> (string \<times> string) option" where
  "hex_escape es =
     (case es of
        h1 # h2 # r \<Rightarrow>
          (case hex_val h1 of
             None \<Rightarrow> None
           | Some a \<Rightarrow>
               (case hex_val h2 of
                  None \<Rightarrow> None
                | Some b \<Rightarrow> Some ([char_of (16 * a + b)], r)))
      | _ \<Rightarrow> None)"

definition octal_escape :: "char \<Rightarrow> string \<Rightarrow> (string \<times> string) option" where
  "octal_escape e es =
     (let more = takeWhile is_octal (take 2 es);
          v = foldl (\<lambda>a c. 8 * a + digit_val c) 0 (e # more)
      in if v < 256 then Some ([char_of v], drop (length more) es) else None)"

text \<open>\<open>escape cs\<close> reads what stands behind a backslash inside a string literal: the
  characters the escape denotes and the source behind it.\<close>

definition escape :: "string \<Rightarrow> (string \<times> string) option" where
  "escape cs =
     (case cs of
        [] \<Rightarrow> None
      | e # es \<Rightarrow>
          if e = CHR ''x'' then hex_escape es
          else if is_octal e then octal_escape e es
          else if e = CHR 0x0A then Some ([], es)
          else if e = CHR 0x0D \<or> e = CHR 0x00 \<or> e = CHR ''N'' \<or> e = CHR ''u'' \<or> e = CHR ''U''
          then None
          else (case simple_escape e of
                  Some ch \<Rightarrow> Some ([ch], es)
                | None \<Rightarrow> Some ([CHR 0x5C, e], es)))"

lemma hex_escape_shorter: "hex_escape es = Some (out, rest) \<Longrightarrow> length rest < length es"
  by (simp add: hex_escape_def split: list.splits option.splits)

lemma octal_escape_shorter: "octal_escape e es = Some (out, rest) \<Longrightarrow> length rest \<le> length es"
  by (auto simp: octal_escape_def Let_def split: if_splits)

lemma escape_shorter:
  assumes "escape cs = Some (out, rest)"
  shows "length rest < length cs"
proof (cases cs)
  case Nil
  with assms show ?thesis by (simp add: escape_def)
next
  case (Cons e es)
  have "length rest \<le> length es"
  proof (cases "e = CHR ''x''")
    case True
    with assms Cons have "hex_escape es = Some (out, rest)" by (simp add: escape_def)
    then show ?thesis using hex_escape_shorter [of es out rest] by simp
  next
    case nx: False
    show ?thesis
    proof (cases "is_octal e")
      case True
      with assms Cons nx have "octal_escape e es = Some (out, rest)" by (simp add: escape_def)
      then show ?thesis by (rule octal_escape_shorter)
    next
      case False
      with assms Cons nx have "rest = es"
        by (simp add: escape_def split: if_splits option.splits)
      then show ?thesis by simp
    qed
  qed
  with Cons show ?thesis by simp
qed

definition puts :: "string \<Rightarrow> (string \<times> string) option \<Rightarrow> (string \<times> string) option" where
  "puts out r = (case r of None \<Rightarrow> None | Some (s, rest) \<Rightarrow> Some (out @ s, rest))"

text \<open>\<open>scan_string q cs\<close> reads the body of a string literal opened by the quote \<open>q\<close>: the
  characters it denotes and the source behind the closing quote. A raw line break or a
  null character inside the literal is an error.\<close>

function scan_string :: "char \<Rightarrow> string \<Rightarrow> (string \<times> string) option" where
  "scan_string q [] = None"
| "scan_string q (c # cs) =
     (if c = q then Some ([], cs)
      else if is_newline c \<or> c = CHR 0x00 then None
      else if c \<noteq> CHR 0x5C then puts [c] (scan_string q cs)
      else (case escape cs of
              None \<Rightarrow> None
            | Some (out, rest) \<Rightarrow> puts out (scan_string q rest)))"
  by pat_completeness auto
termination
  by (relation "measure (\<lambda>(q, cs). length cs)") (auto dest: escape_shorter)

lemma scan_string_shorter:
  "scan_string q cs = Some (s, rest) \<Longrightarrow> length rest < length cs"
proof (induction q cs arbitrary: s rest rule: scan_string.induct)
  case (1 q)
  then show ?case by simp
next
  case (2 q c cs)
  show ?case
  proof (cases "c = q")
    case True
    with "2.prems" show ?thesis by simp
  next
    case nq: False
    show ?thesis
    proof (cases "c = CHR 0x5C")
      case False
      with nq "2.prems" obtain s' where "scan_string q cs = Some (s', rest)"
        by (auto simp: puts_def split: if_splits option.splits)
      with "2.IH"(1) [of s' rest] nq False "2.prems" show ?thesis
        by (auto split: if_splits)
    next
      case True
      with nq "2.prems" obtain out r s' where e: "escape cs = Some (out, r)"
        and r: "scan_string q r = Some (s', rest)"
        by (auto simp: puts_def split: if_splits option.splits)
      from nq True "2.prems" have nn: "\<not> (is_newline c \<or> c = CHR 0x00)"
        by (auto split: if_splits)
      have "length rest < length r"
        using "2.IH"(2) [OF nq nn _ e refl r] True by simp
      with escape_shorter [OF e] show ?thesis by simp
    qed
  qed
qed

definition emit :: "token \<Rightarrow> token list option \<Rightarrow> token list option" where
  "emit t r = (case r of None \<Rightarrow> None | Some ts \<Rightarrow> Some (t # ts))"

definition keyword :: "string \<Rightarrow> token option" where
  "keyword w =
     (if w = ''None'' then Some TNone
      else if w = ''True'' then Some TTrue
      else if w = ''False'' then Some TFalse
      else None)"

text \<open>A run of digits is a decimal integer when nothing that continues a number or a name
  stands behind it and it has no leading zero (a run of zeros alone is zero).\<close>

definition number_ok :: "string \<Rightarrow> string \<Rightarrow> bool" where
  "number_ok ds rest =
     ((case rest of [] \<Rightarrow> True | c # _ \<Rightarrow> \<not> is_ident_char c \<and> c \<noteq> CHR ''.'')
      \<and> (if length ds = 1 then True
         else if hd ds = CHR ''0'' then list_all (\<lambda>c. c = CHR ''0'') ds
         else True))"

text \<open>\<open>next_token level cs\<close> reads one token, or skips one character of blank space,
  at the head of a non-empty source: the token if any, the number of brackets open
  afterwards (a line break is a token only when none is open), and the source left.\<close>

definition next_token :: "nat \<Rightarrow> char \<Rightarrow> string \<Rightarrow> (token option \<times> nat \<times> string) option" where
  "next_token level c cs =
     (if is_blank c then Some (None, level, cs)
      else if is_newline c then Some (if level = 0 then Some TNewline else None, level, cs)
      else if c = CHR ''{'' then Some (Some TLBrace, Suc level, cs)
      else if c = CHR ''['' then Some (Some TLBrack, Suc level, cs)
      else if c = CHR ''}'' then Some (Some TRBrace, level - 1, cs)
      else if c = CHR '']'' then Some (Some TRBrack, level - 1, cs)
      else if c = CHR '','' then Some (Some TComma, level, cs)
      else if c = CHR '':'' then Some (Some TColon, level, cs)
      else if c = CHR ''-'' then Some (Some TMinus, level, cs)
      else if c = CHR ''+'' then Some (Some TPlus, level, cs)
      else if is_digit c then
        (if number_ok (c # takeWhile is_digit cs) (dropWhile is_digit cs)
         then Some (Some (TNum (nat_of_digits (c # takeWhile is_digit cs))), level,
                    dropWhile is_digit cs)
         else None)
      else if is_ident_char c then
        (case keyword (c # takeWhile is_ident_char cs) of
           None \<Rightarrow> None
         | Some t \<Rightarrow>
             if starts_with [CHR 0x27] (dropWhile is_ident_char cs)
                \<or> starts_with [CHR 0x22] (dropWhile is_ident_char cs)
             then None
             else Some (Some t, level, dropWhile is_ident_char cs))
      else if c = CHR 0x27 \<or> c = CHR 0x22 then
        (if starts_with [c, c] cs then None
         else (case scan_string c cs of
                 None \<Rightarrow> None
               | Some (s, rest) \<Rightarrow> Some (Some (TStr s), level, rest)))
      else None)"

lemma next_token_shorter:
  assumes "next_token level c cs = Some (t, level', rest)"
  shows "length rest \<le> length cs"
proof -
  have d: "length (dropWhile P cs) \<le> length cs" for P
    by (rule length_dropWhile_le)
  have s: "scan_string c cs = Some (x, rest) \<Longrightarrow> length rest \<le> length cs" for x
    using scan_string_shorter [of c cs x rest] by simp
  show ?thesis
    using assms d [of is_digit] d [of is_ident_char] s
    unfolding next_token_def
    by (simp split: if_splits option.splits prod.splits)
qed

function tokenize :: "nat \<Rightarrow> string \<Rightarrow> token list option" where
  "tokenize level [] = Some []"
| "tokenize level (c # cs) =
     (case next_token level c cs of
        None \<Rightarrow> None
      | Some (None, level', rest) \<Rightarrow> tokenize level' rest
      | Some (Some t, level', rest) \<Rightarrow> emit t (tokenize level' rest))"
  by pat_completeness auto
termination
  by (relation "measure (\<lambda>(level, cs). length cs)")
     (auto simp: less_Suc_eq_le dest: next_token_shorter)

subsection \<open>Dicts\<close>

text \<open>A key must be hashable: lists and dicts are not. Keys are compared with \<^verbatim>\<open>==\<close>, under
  which \<^verbatim>\<open>True\<close> is \<^verbatim>\<open>1\<close> and \<^verbatim>\<open>False\<close> is \<^verbatim>\<open>0\<close>.\<close>

fun hashable :: "pyval \<Rightarrow> bool" where
  "hashable (PList xs) = False"
| "hashable (PDict kvs) = False"
| "hashable v = True"

fun key_norm :: "pyval \<Rightarrow> pyval" where
  "key_norm (PBool b) = PInt (if b then 1 else 0)"
| "key_norm v = v"

definition key_eq :: "pyval \<Rightarrow> pyval \<Rightarrow> bool" where
  "key_eq a b = (key_norm a = key_norm b)"

fun dict_get :: "(pyval \<times> pyval) list \<Rightarrow> pyval \<Rightarrow> pyval option" where
  "dict_get [] k = None"
| "dict_get ((k', v) # d) k = (if key_eq k' k then Some v else dict_get d k)"

text \<open>Storing under a key that is there keeps the old key and its place.\<close>

fun dict_set :: "(pyval \<times> pyval) list \<Rightarrow> pyval \<Rightarrow> pyval \<Rightarrow> (pyval \<times> pyval) list" where
  "dict_set [] k v = [(k, v)]"
| "dict_set ((k', v') # d) k v =
     (if key_eq k' k then (k', v) # d else (k', v') # dict_set d k v)"

fun build_dict :: "(pyval \<times> pyval) list \<Rightarrow> (pyval \<times> pyval) list \<Rightarrow> (pyval \<times> pyval) list option" where
  "build_dict d [] = Some d"
| "build_dict d ((k, v) # kvs) = (if hashable k then build_dict (dict_set d k v) kvs else None)"

text \<open>\<^verbatim>\<open>data[key]\<close> for a string \<open>key\<close>: a dict is searched and a missing key is a
  \<^verbatim>\<open>KeyError\<close>; a string or a list does not take a string as index, and \<^verbatim>\<open>None\<close>, a
  boolean or an integer cannot be subscripted at all, which is a \<^verbatim>\<open>TypeError\<close>.\<close>

fun getitem :: "pyval \<Rightarrow> string \<Rightarrow> py_error + pyval" where
  "getitem (PDict d) key =
     (case dict_get d (PStr key) of None \<Rightarrow> Inl (KeyError (PStr key)) | Some v \<Rightarrow> Inr v)"
| "getitem v key = Inl TypeError"

subsection \<open>The parser\<close>

text \<open>
  A recursive-descent parser over the tokens. Every call spends one unit of \<open>fuel\<close>;
  \<open>Starved\<close> says that the fuel ran out, \<open>Rejected\<close> that the tokens are no literal.
  \<open>literal_eval\<close> below hands over more fuel than any token list can use
  (lemma \<open>parse_value_fed\<close> below).
\<close>

datatype 'a parsed = Parsed 'a "token list" | Rejected | Starved

fun next_is :: "token \<Rightarrow> token list \<Rightarrow> bool" where
  "next_is t [] = False"
| "next_is t (x # xs) = (x = t)"

fun parse_value :: "nat \<Rightarrow> token list \<Rightarrow> pyval parsed"
  and parse_elems :: "nat \<Rightarrow> token list \<Rightarrow> pyval list parsed"
  and parse_items :: "nat \<Rightarrow> token list \<Rightarrow> (pyval \<times> pyval) list parsed" where
  "parse_value 0 ts = Starved"
| "parse_value (Suc n) [] = Rejected"
| "parse_value (Suc n) (t # ts) =
     (case t of
        TNone \<Rightarrow> Parsed PNone ts
      | TTrue \<Rightarrow> Parsed (PBool True) ts
      | TFalse \<Rightarrow> Parsed (PBool False) ts
      | TNum k \<Rightarrow> Parsed (PInt (int k)) ts
      | TStr s \<Rightarrow> Parsed (PStr s) ts
      | TMinus \<Rightarrow> (case ts of TNum k # r \<Rightarrow> Parsed (PInt (- int k)) r | _ \<Rightarrow> Rejected)
      | TPlus \<Rightarrow> (case ts of TNum k # r \<Rightarrow> Parsed (PInt (int k)) r | _ \<Rightarrow> Rejected)
      | TLBrack \<Rightarrow>
          (case parse_elems n ts of
             Parsed xs r \<Rightarrow> Parsed (PList xs) r
           | Rejected \<Rightarrow> Rejected
           | Starved \<Rightarrow> Starved)
      | TLBrace \<Rightarrow>
          (case parse_items n ts of
             Parsed kvs r \<Rightarrow>
               (case build_dict [] kvs of None \<Rightarrow> Rejected | Some d \<Rightarrow> Parsed (PDict d) r)
           | Rejected \<Rightarrow> Rejected
           | Starved \<Rightarrow> Starved)
      | _ \<Rightarrow> Rejected)"
| "parse_elems 0 ts = Starved"
| "parse_elems (Suc n) ts =
     (if next_is TRBrack ts then Parsed [] (tl ts)
      else (case parse_value n ts of
              Parsed x r \<Rightarrow>
                (if next_is TRBrack r then Parsed [x] (tl r)
                 else if next_is TComma r then
                   (case parse_elems n (tl r) of
                      Parsed xs r' \<Rightarrow> Parsed (x # xs) r'
                    | Rejected \<Rightarrow> Rejected
                    | Starved \<Rightarrow> Starved)
                 else Rejected)
            | Rejected \<Rightarrow> Rejected
            | Starved \<Rightarrow> Starved))"
| "parse_items 0 ts = Starved"
| "parse_items (Suc n) ts =
     (if next_is TRBrace ts then Parsed [] (tl ts)
      else (case parse_value n ts of
              Parsed k r \<Rightarrow>
                (if next_is TColon r then
                   (case parse_value n (tl r) of
                      Parsed v r' \<Rightarrow>
                        (if next_is TRBrace r' then Parsed [(k, v)] (tl r')
                         else if next_is TComma r' then
                           (case parse_items n (tl r') of
                              Parsed kvs r'' \<Rightarrow> Parsed ((k, v) # kvs) r''
                            | Rejected \<Rightarrow> Rejected
                            | Starved \<Rightarrow> Starved)
                         else Rejected)
                    | Rejected \<Rightarrow> Rejected
                    | Starved \<Rightarrow> Starved)
                 else Rejected)
            | Rejected \<Rightarrow> Rejected
            | Starved \<Rightarrow> Starved))"

subsection \<open>The start of the source\<close>

text \<open>\<^verbatim>\<open>literal_eval\<close> strips leading spaces and tabs. Blank lines before the literal are
  skipped; a first token that is indented on a later line is an error.\<close>

function skip_blank_lines :: "string \<Rightarrow> string option" where
  "skip_blank_lines s =
     (case dropWhile is_blank s of
        [] \<Rightarrow> Some []
      | c # cs \<Rightarrow>
          if is_newline c then skip_blank_lines cs
          else if dropWhile is_blank s = s then Some s
          else None)"
  by pat_completeness auto
termination
proof (relation "measure length")
  show "wf (measure length)"
    by simp
next
  fix s :: string and c cs
  assume "dropWhile is_blank s = c # cs"
  then have "length (c # cs) \<le> length s"
    using length_dropWhile_le [of is_blank s] by simp
  then show "(cs, s) \<in> measure length"
    by simp
qed

declare skip_blank_lines.simps [simp del]

definition source_start :: "string \<Rightarrow> string option" where
  "source_start s =
     (case dropWhile is_blank s of
        [] \<Rightarrow> Some []
      | c # cs \<Rightarrow> if is_newline c then skip_blank_lines cs else Some (c # cs))"

definition literal_eval :: "string \<Rightarrow> py_error + pyval" where
  "literal_eval s =
     (case source_start s of
        None \<Rightarrow> Inl LiteralError
      | Some src \<Rightarrow>
          (case tokenize 0 src of
             None \<Rightarrow> Inl LiteralError
           | Some ts \<Rightarrow>
               (case parse_value (2 * length ts + 2) ts of
                  Parsed v r \<Rightarrow> if list_all (\<lambda>t. t = TNewline) r then Inr v else Inl LiteralError
                | Rejected \<Rightarrow> Inl LiteralError
                | Starved \<Rightarrow> Inl LiteralError)))"

section \<open>Transcript entries\<close>

text \<open>
  Modelled from the spec: the entry classes \<^verbatim>\<open>FunctionCall\<close>, \<^verbatim>\<open>FunctionResult\<close>,
  \<^verbatim>\<open>AgentFinish\<close> and the log class \<^verbatim>\<open>MessageLog\<close> of \<^verbatim>\<open>automaton/typedefs.py\<close>, and
  the message classes of \<^verbatim>\<open>schema/messages.py\<close>, are imported by \<^verbatim>\<open>chat_agent.py\<close> but
  are not part of the sources at hand. The spec describes them as immutable value
  objects: a message has a role and a content, an invocation a name and arguments, a
  result a value and the invocation it answers, a finish a result. They store what
  they are given, so a field holds any literal value. The log is an ordered,
  append-only sequence of entries that is false exactly when it is empty.
\<close>

datatype role = Human | AI | System

datatype message_like =
    BaseMessage role string
  | FunctionCall pyval pyval            \<comment> \<open>name, arguments\<close>
  | FunctionResult pyval pyval pyval    \<comment> \<open>result, then name and arguments of the source action\<close>
  | AgentFinish pyval                   \<comment> \<open>result\<close>

section \<open>\<^verbatim>\<open>ActionEncoder\<close>\<close>

text \<open>The argument of \<^verbatim>\<open>decode\<close> is a string or a message, of which the content is
  taken.\<close>

datatype decode_input = Text string | Message role string

fun text_of :: "decode_input \<Rightarrow> string" where
  "text_of (Text s) = s"
| "text_of (Message r c) = c"

definition decode :: "decode_input \<Rightarrow> py_error + message_like option" where
  "decode text =
     (case pattern_search (text_of text) of
        None \<Rightarrow> Inr None
      | Some action_blob \<Rightarrow>
          (case literal_eval action_blob of
             Inl e \<Rightarrow> Inl e
           | Inr data \<Rightarrow>
               (case getitem data ''action'' of
                  Inl e \<Rightarrow> Inl e
                | Inr name \<Rightarrow>
                    if name = PStr ''Final Answer'' then
                      (case getitem data ''action_input'' of
                         Inl e \<Rightarrow> Inl e
                       | Inr result \<Rightarrow> Inr (Some (AgentFinish result)))
                    else
                      (case getitem data ''action'' of
                         Inl e \<Rightarrow> Inl e
                       | Inr name' \<Rightarrow>
                           (case getitem data ''action_input'' of
                              Inl e \<Rightarrow> Inl e
                            | Inr action_input \<Rightarrow>
                                Inr (Some (FunctionCall name'
                                  (if truthy action_input then action_input else PDict []))))))))"

text \<open>\<open>encode_as_str name arguments\<close> is \<^verbatim>\<open>encode_as_str(function_call)\<close> for a
  \<^verbatim>\<open>function_call\<close> with these two fields. The f-strings insert \<^verbatim>\<open>str\<close> of the field.\<close>

definition encode_as_str :: "pyval \<Rightarrow> pyval \<Rightarrow> string" where
  "encode_as_str name arguments =
     (if name = PStr ''Final Answer'' then
        ''<action>{'action': 'Final Answer', 'action_input': '' @ [CHR 0x27]
          @ py_str arguments @ [CHR 0x27] @ ''}</action>''
      else
        ''<action>{'action': '' @ [CHR 0x27] @ py_str name @ [CHR 0x27]
          @ '', 'action_input': '' @ py_str arguments @ ''}</action>'')"

section \<open>\<^verbatim>\<open>prompt_generator\<close>\<close>

definition SystemMessage :: "string \<Rightarrow> message_like" where
  "SystemMessage content = BaseMessage System content"

text \<open>The \<^verbatim>\<open>for\<close> loop over \<^verbatim>\<open>log.messages\<close>, with the list \<^verbatim>\<open>messages\<close> that it appends
  to.\<close>

fun prompt_generator_loop :: "message_like list \<Rightarrow> message_like list \<Rightarrow> message_like list" where
  "prompt_generator_loop [] messages = messages"
| "prompt_generator_loop (message # rest) messages =
     (case message of
        BaseMessage r c \<Rightarrow> prompt_generator_loop rest (messages @ [message])
      | FunctionResult result n a \<Rightarrow>
          prompt_generator_loop rest (messages @ [SystemMessage (''Observation: '' @ py_str result)])
      | _ \<Rightarrow> prompt_generator_loop rest messages)"

definition prompt_generator :: "message_like list \<Rightarrow> message_like list" where
  "prompt_generator log = prompt_generator_loop log []"

section \<open>\<^verbatim>\<open>ChatAgent\<close>\<close>

text \<open>
  The agent holds its program and its iteration budget. \<^verbatim>\<open>run\<close> changes the log in
  place and returns nothing, or raises; the model returns what was raised, if anything,
  the log as \<^verbatim>\<open>run\<close> leaves it, and the number of times the program was invoked.
\<close>

type_synonym llm_program = "message_like list \<Rightarrow> py_error + message_like list"

record chat_agent =
  llm_program :: llm_program
  max_iterations :: int

record run_outcome =
  raised :: "py_error option"
  message_log :: "message_like list"
  invocations :: nat

text \<open>\<open>run_loop program k log calls\<close>: the \<^verbatim>\<open>for\<close> loop with \<open>k\<close> iterations left.\<close>

fun run_loop :: "llm_program \<Rightarrow> nat \<Rightarrow> message_like list \<Rightarrow> nat \<Rightarrow> run_outcome" where
  "run_loop program 0 log calls = \<lparr>raised = None, message_log = log, invocations = calls\<rparr>"
| "run_loop program (Suc k) log calls =
     (if log = [] then \<lparr>raised = Some IndexError, message_log = log, invocations = calls\<rparr>
      else (case last log of
              AgentFinish result \<Rightarrow> \<lparr>raised = None, message_log = log, invocations = calls\<rparr>
            | _ \<Rightarrow>
                (case program log of
                   Inl e \<Rightarrow> \<lparr>raised = Some e, message_log = log, invocations = Suc calls\<rparr>
                 | Inr messages \<Rightarrow> run_loop program k (log @ messages) (Suc calls))))"

definition run :: "chat_agent \<Rightarrow> message_like list \<Rightarrow> run_outcome" where
  "run self log =
     (if log = [] then \<lparr>raised = Some AssertionError, message_log = log, invocations = 0\<rparr>
      else run_loop (llm_program self) (nat (max_iterations self)) log 0)"

text \<open>
  Modelled from the spec: \<^verbatim>\<open>create_llm_program\<close> of \<^verbatim>\<open>automaton/runnables.py\<close> and
  \<^verbatim>\<open>MessageLogPromptValue.from_message_log\<close> of \<^verbatim>\<open>automaton/prompt_generators.py\<close> are
  not part of the sources at hand. By the spec one invocation of the program projects
  the transcript to a prompt, invokes the model once to obtain raw text, decodes the
  text, and, if the decoded action is an invocation, executes the named tool with its
  arguments. The entries it hands back are the model's message, the decoded action if
  there is one, and the result of the tool if a tool ran. A failure of the model or of
  the decoder is raised to the caller; a failure of a tool is a result value. The model
  is a function from the prompt to a text or an error, the tools a function from name
  and arguments to a value.
\<close>

definition create_llm_program ::
  "(message_like list \<Rightarrow> py_error + string) \<Rightarrow> (message_like list \<Rightarrow> message_like list) \<Rightarrow>
   (pyval \<Rightarrow> pyval \<Rightarrow> pyval) \<Rightarrow> (decode_input \<Rightarrow> py_error + message_like option) \<Rightarrow> llm_program" where
  "create_llm_program llm prompt tools parser log =
     (case llm (prompt log) of
        Inl e \<Rightarrow> Inl e
      | Inr text \<Rightarrow>
          (case parser (Text text) of
             Inl e \<Rightarrow> Inl e
           | Inr None \<Rightarrow> Inr [BaseMessage AI text]
           | Inr (Some (FunctionCall n a)) \<Rightarrow>
               Inr [BaseMessage AI text, FunctionCall n a, FunctionResult (tools n a) n a]
           | Inr (Some action) \<Rightarrow> Inr [BaseMessage AI text, action]))"

definition ChatAgent ::
  "(message_like list \<Rightarrow> py_error + string) \<Rightarrow> (pyval \<Rightarrow> pyval \<Rightarrow> pyval) \<Rightarrow> int \<Rightarrow> chat_agent" where
  "ChatAgent llm tools max_iter =
     \<lparr>llm_program = create_llm_program llm prompt_generator tools decode,
      max_iterations = max_iter\<rparr>"

section \<open>Notions the claims are stated with\<close>

text \<open>\<open>occurs pat s\<close>: the text \<open>pat\<close> stands somewhere in \<open>s\<close>. \<open>has_block text\<close>: the
  delimiter pattern, an opening tag with a closing tag somewhere behind it, is in
  \<open>text\<close>.\<close>

definition occurs :: "string \<Rightarrow> string \<Rightarrow> bool" where
  "occurs pat s = (\<exists>a b. s = a @ pat @ b)"




fun is_finish :: "message_like \<Rightarrow> bool" where
  "is_finish (AgentFinish result) = True"
| "is_finish m = False"

text \<open>The rest of this section holds what the round trip of the codec is stated and
  proved with. \<open>delim rest\<close>: the source \<open>rest\<close> is empty or starts with a comma, a colon
  or a closing bracket, as the source behind a printed value does.\<close>

definition delim :: "string \<Rightarrow> bool" where
  "delim rest =
     (case rest of
        [] \<Rightarrow> True
      | c # cs \<Rightarrow> c = CHR '','' \<or> c = CHR '']'' \<or> c = CHR ''}'' \<or> c = CHR '':'')"


text \<open>\<open>toks v\<close>: the tokens of \<^verbatim>\<open>repr(v)\<close>.\<close>

function toks :: "pyval \<Rightarrow> token list"
  and toks_elems :: "pyval list \<Rightarrow> token list"
  and toks_items :: "(pyval \<times> pyval) list \<Rightarrow> token list" where
  "toks PNone = [TNone]"
| "toks (PBool b) = [if b then TTrue else TFalse]"
| "toks (PInt i) = (if i < 0 then [TMinus, TNum (nat (- i))] else [TNum (nat i)])"
| "toks (PStr s) = [TStr s]"
| "toks (PList xs) = TLBrack # toks_elems xs @ [TRBrack]"
| "toks (PDict kvs) = TLBrace # toks_items kvs @ [TRBrace]"
| "toks_elems [] = []"
| "toks_elems [x] = toks x"
| "toks_elems (x # y # ys) = toks x @ TComma # toks_elems (y # ys)"
| "toks_items [] = []"
| "toks_items [(k, v)] = toks k @ TColon # toks v"
| "toks_items ((k, v) # kv # kvs) = toks k @ TColon # toks v @ TComma # toks_items (kv # kvs)"
  by pat_completeness auto
termination
  by (relation "measure (\<lambda>x. case x of
        Inl v \<Rightarrow> size v
      | Inr (Inl xs) \<Rightarrow> size_list size xs
      | Inr (Inr kvs) \<Rightarrow> size_list (size_prod size size) kvs)") auto

definition emits :: "token list \<Rightarrow> token list option \<Rightarrow> token list option" where
  "emits ts r = (case r of None \<Rightarrow> None | Some rs \<Rightarrow> Some (ts @ rs))"

text \<open>The JSON-safe values: \<^verbatim>\<open>None\<close>, booleans, integers, strings, lists of JSON-safe
  values, and dicts with pairwise different string keys and JSON-safe values.\<close>

fun is_str :: "pyval \<Rightarrow> bool" where
  "is_str (PStr s) = True"
| "is_str v = False"

fun json_safe :: "pyval \<Rightarrow> bool"
  and json_safe_list :: "pyval list \<Rightarrow> bool"
  and json_safe_items :: "(pyval \<times> pyval) list \<Rightarrow> bool" where
  "json_safe (PList xs) = json_safe_list xs"
| "json_safe (PDict kvs) = (json_safe_items kvs \<and> distinct (map fst kvs))"
| "json_safe v = True"
| "json_safe_list [] = True"
| "json_safe_list (x # xs) = (json_safe x \<and> json_safe_list xs)"
| "json_safe_items [] = True"
| "json_safe_items ((k, v) # kvs) = (is_str k \<and> json_safe v \<and> json_safe_items kvs)"


section \<open>Facts about the search\<close>

lemma starts_with_iff: "starts_with p s \<longleftrightarrow> (\<exists>r. s = p @ r)"
  by (induction p s rule: starts_with.induct) auto

lemma find_sub_sound: "find_sub pat s = Some (a, b) \<Longrightarrow> s = a @ pat @ b"
proof (induction s arbitrary: a b)
  case Nil
  then show ?case by (simp split: if_splits)
next
  case (Cons c cs)
  show ?case
  proof (cases "starts_with pat (c # cs)")
    case True
    then obtain r where r: "c # cs = pat @ r"
      by (auto simp: starts_with_iff)
    from True Cons.prems have "a = []" "b = drop (length pat) (c # cs)"
      by simp_all
    with r show ?thesis by simp
  next
    case False
    with Cons.prems obtain a' where "find_sub pat cs = Some (a', b)" "a = c # a'"
      by (auto split: option.splits)
    with Cons.IH [of a' b] show ?thesis by simp
  qed
qed

lemma find_sub_complete: "find_sub pat (a @ pat @ b) \<noteq> None"
proof (induction a)
  case Nil
  show ?case
  proof (cases "pat @ b")
    case Nil
    then show ?thesis by simp
  next
    case (Cons c cs)
    then have "starts_with pat (c # cs)"
      by (metis starts_with_iff)
    with Cons show ?thesis by simp
  qed
next
  case (Cons x a)
  then show ?case by (auto split: option.splits)
qed

lemma occurs_iff: "occurs pat s \<longleftrightarrow> find_sub pat s \<noteq> None"
proof
  assume "occurs pat s"
  then show "find_sub pat s \<noteq> None"
    unfolding occurs_def using find_sub_complete by blast
next
  assume "find_sub pat s \<noteq> None"
  then obtain a b where "find_sub pat s = Some (a, b)" by auto
  from find_sub_sound [OF this] show "occurs pat s"
    unfolding occurs_def by blast
qed

lemma find_sub_at:
  assumes "pat \<noteq> []" and "\<not> occurs pat (pre @ butlast pat)"
  shows "find_sub pat (pre @ pat @ rest) = Some (pre, rest)"
  using assms(2)
proof (induction pre)
  case Nil
  from assms(1) obtain p ps where "pat = p # ps"
    by (cases pat) auto
  then have "find_sub pat (pat @ rest) = Some ([], drop (length pat) (pat @ rest))"
    using starts_with_iff [of pat "pat @ rest"] by auto
  then show ?case by simp
next
  case (Cons c pre)
  have ns: "\<not> starts_with pat (c # pre @ pat @ rest)"
  proof
    assume "starts_with pat (c # pre @ pat @ rest)"
    then obtain r where r: "c # pre @ pat @ rest = pat @ r"
      by (auto simp: starts_with_iff)
    define X where "X = (c # pre) @ butlast pat"
    have le: "length pat \<le> length X"
      using assms(1) by (simp add: X_def)
    have e: "pat @ r = X @ [last pat] @ rest"
      unfolding X_def
      using r append_butlast_last_id [OF assms(1)] by (metis append.assoc append_Cons append_Nil)
    have "pat = take (length pat) (pat @ r)"
      by simp
    also have "\<dots> = take (length pat) (X @ [last pat] @ rest)"
      by (simp only: e)
    also have "\<dots> = take (length pat) X"
      using le by simp
    finally have "X = [] @ pat @ drop (length pat) X"
      by (metis append_Nil append_take_drop_id)
    then have "occurs pat X"
      unfolding occurs_def by blast
    with Cons.prems show False by (simp add: X_def)
  qed
  have "\<not> occurs pat (pre @ butlast pat)"
  proof
    assume "occurs pat (pre @ butlast pat)"
    then obtain a b where "pre @ butlast pat = a @ pat @ b"
      unfolding occurs_def by blast
    then have "(c # pre) @ butlast pat = (c # a) @ pat @ b"
      by simp
    then have "occurs pat ((c # pre) @ butlast pat)"
      unfolding occurs_def by blast
    with Cons.prems show False by simp
  qed
  then have "find_sub pat (pre @ pat @ rest) = Some (pre, rest)"
    by (rule Cons.IH)
  with ns show ?case by simp
qed





lemma pattern_search_at:
  assumes "\<not> occurs ''<action>'' (pre @ ''<action'')"
    and "\<not> occurs ''</action>'' (blob @ ''</action'')"
  shows "pattern_search (pre @ ''<action>'' @ blob @ ''</action>'' @ post) = Some blob"
proof -
  have a: "find_sub ''<action>'' (pre @ ''<action>'' @ (blob @ ''</action>'' @ post))
           = Some (pre, blob @ ''</action>'' @ post)"
    using assms(1) by (intro find_sub_at) simp_all
  have b: "find_sub ''</action>'' (blob @ ''</action>'' @ post) = Some (blob, post)"
    using assms(2) by (intro find_sub_at) simp_all
  from a b show ?thesis
    by (simp add: pattern_search_def)
qed

section \<open>Facts about \<^verbatim>\<open>decode\<close>\<close>


lemma decode_literal_error:
  "pattern_search (text_of t) = Some blob \<Longrightarrow> literal_eval blob = Inl e \<Longrightarrow> decode t = Inl e"
  by (simp add: decode_def)

lemma decode_call:
  assumes "pattern_search (text_of t) = Some blob"
    and "literal_eval blob = Inr data"
    and "getitem data ''action'' = Inr name"
    and "name \<noteq> PStr ''Final Answer''"
    and "getitem data ''action_input'' = Inr action_input"
  shows "decode t = Inr (Some (FunctionCall name (if truthy action_input then action_input else PDict [])))"
  using assms by (simp add: decode_def)


lemma decode_no_input:
  assumes "pattern_search (text_of t) = Some blob"
    and "literal_eval blob = Inr data"
    and "getitem data ''action'' = Inr name"
    and "getitem data ''action_input'' = Inl e"
  shows "decode t = Inl e"
  using assms by (simp add: decode_def)


lemma getitem_Inr_iff: "getitem data key = Inr v \<longleftrightarrow> (\<exists>d. data = PDict d \<and> dict_get d (PStr key) = Some v)"
  by (cases data) (auto split: option.splits)


section \<open>Facts about the literal evaluator and the encoder\<close>

lemma char_eq_iff_nat: "c = d \<longleftrightarrow> (of_char c :: nat) = of_char d"
  by simp

lemma digit_char_props:
  assumes "d < 10"
  shows "is_digit (digit_char d)" "digit_val (digit_char d) = d"
    "digit_char d = CHR ''0'' \<longleftrightarrow> d = 0"
  using assms by (simp_all add: is_digit_def digit_char_def digit_val_def char_eq_iff_nat del: of_char_eq_iff)

lemma digits_of_ne: "digits_of n \<noteq> []"
  by (subst digits_of.simps) simp

lemma digits_of_all: "list_all is_digit (digits_of n)"
proof (induction n rule: digits_of.induct)
  case (1 n)
  show ?case
    by (subst digits_of.simps) (use 1 in \<open>simp add: digit_char_props\<close>)
qed

lemma nat_of_digits_snoc: "nat_of_digits (ds @ [c]) = 10 * nat_of_digits ds + digit_val c"
  by (simp add: nat_of_digits_def)

lemma nat_of_digits_of: "nat_of_digits (digits_of n) = n"
proof (induction n rule: digits_of.induct)
  case (1 n)
  show ?case
  proof (cases "n < 10")
    case True
    then show ?thesis
      by (subst digits_of.simps) (simp add: nat_of_digits_def digit_char_props)
  next
    case False
    with 1 show ?thesis
      by (subst digits_of.simps) (simp add: nat_of_digits_snoc digit_char_props)
  qed
qed

lemma hd_digits_of: "hd (digits_of n) = CHR ''0'' \<Longrightarrow> n = 0"
proof (induction n rule: digits_of.induct)
  case (1 n)
  show ?case
  proof (cases "n < 10")
    case True
    with "1.prems" show ?thesis
      by (subst (asm) digits_of.simps) (simp add: digit_char_props)
  next
    case False
    with "1.prems" have "hd (digits_of (n div 10)) = CHR ''0''"
      by (subst (asm) digits_of.simps) (simp add: digits_of_ne)
    with 1 False have "n div 10 = 0" by simp
    with False show ?thesis by simp
  qed
qed

lemma digits_of_0: "digits_of 0 = ''0''"
  by (subst digits_of.simps) (simp add: digit_char_def char_eq_iff_nat del: of_char_eq_iff)

lemma delim_simps [simp]:
  "delim []" "delim (CHR '','' # cs)" "delim (CHR '']'' # cs)" "delim (CHR ''}'' # cs)"
  "delim (CHR '':'' # cs)"
  by (simp_all add: delim_def)

lemma delim_facts:
  assumes "delim rest"
  shows "takeWhile is_ident_char rest = []" "dropWhile is_ident_char rest = rest"
    "takeWhile is_digit rest = []" "dropWhile is_digit rest = rest"
    "\<not> starts_with [CHR 0x27] rest" "\<not> starts_with [CHR 0x22] rest"
    "number_ok ds rest \<longleftrightarrow> (length ds = 1 \<or> hd ds \<noteq> CHR ''0'' \<or> list_all (\<lambda>c. c = CHR ''0'') ds)"
proof -
  consider "rest = []" | cs where "rest = CHR '','' # cs" | cs where "rest = CHR '']'' # cs"
    | cs where "rest = CHR ''}'' # cs" | cs where "rest = CHR '':'' # cs"
    using assms by (cases rest) (auto simp: delim_def)
  then have "takeWhile is_ident_char rest = [] \<and> dropWhile is_ident_char rest = rest
    \<and> takeWhile is_digit rest = [] \<and> dropWhile is_digit rest = rest
    \<and> \<not> starts_with [CHR 0x27] rest \<and> \<not> starts_with [CHR 0x22] rest
    \<and> (number_ok ds rest \<longleftrightarrow> (length ds = 1 \<or> hd ds \<noteq> CHR ''0'' \<or> list_all (\<lambda>c. c = CHR ''0'') ds))"
    by cases (simp_all add: is_ident_char_def is_digit_def number_ok_def)
  then show "takeWhile is_ident_char rest = []" "dropWhile is_ident_char rest = rest"
    "takeWhile is_digit rest = []" "dropWhile is_digit rest = rest"
    "\<not> starts_with [CHR 0x27] rest" "\<not> starts_with [CHR 0x22] rest"
    "number_ok ds rest \<longleftrightarrow> (length ds = 1 \<or> hd ds \<noteq> CHR ''0'' \<or> list_all (\<lambda>c. c = CHR ''0'') ds)"
    by simp_all
qed

lemma tokenize_keywords:
  assumes "delim rest"
  shows "tokenize l (''None'' @ rest) = emit TNone (tokenize l rest)"
    "tokenize l (''True'' @ rest) = emit TTrue (tokenize l rest)"
    "tokenize l (''False'' @ rest) = emit TFalse (tokenize l rest)"
  using delim_facts [OF assms]
  by (simp_all add: next_token_def is_blank_def is_newline_def is_digit_def is_ident_char_def
      keyword_def)
lemma next_token_digit:
  assumes "is_digit d"
  shows "next_token l d cs =
     (if number_ok (d # takeWhile is_digit cs) (dropWhile is_digit cs)
      then Some (Some (TNum (nat_of_digits (d # takeWhile is_digit cs))), l, dropWhile is_digit cs)
      else None)"
proof -
  have "\<not> is_blank d" "\<not> is_newline d" "d \<noteq> CHR ''{''" "d \<noteq> CHR ''[''" "d \<noteq> CHR ''}''"
    "d \<noteq> CHR '']''" "d \<noteq> CHR '',''" "d \<noteq> CHR '':''" "d \<noteq> CHR ''-''" "d \<noteq> CHR ''+''"
    using assms by (auto simp: is_digit_def is_blank_def is_newline_def)
  with assms show ?thesis
    by (simp add: next_token_def)
qed

lemma tokenize_digits:
  assumes "delim rest"
  shows "tokenize l (digits_of n @ rest) = emit (TNum n) (tokenize l rest)"
proof -
  obtain d ds where dd: "digits_of n = d # ds"
    using digits_of_ne [of n] by (cases "digits_of n") auto
  have all: "list_all is_digit (d # ds)"
    using digits_of_all [of n] dd by simp
  then have "\<And>x. x \<in> set ds \<Longrightarrow> is_digit x"
    by (simp add: list_all_iff)
  then have tw: "takeWhile is_digit (ds @ rest) = ds" and dw: "dropWhile is_digit (ds @ rest) = rest"
    using delim_facts(3,4) [OF assms] by simp_all
  have ok: "number_ok (d # ds) rest"
  proof (cases "hd (digits_of n) = CHR ''0''")
    case True
    then have "n = 0" by (rule hd_digits_of)
    with dd have "length (d # ds) = 1" by (simp add: digits_of_0)
    then show ?thesis using delim_facts(7) [OF assms, of "d # ds"] by simp
  next
    case False
    with dd show ?thesis using delim_facts(7) [OF assms, of "d # ds"] by simp
  qed
  have n: "nat_of_digits (d # ds) = n"
    using nat_of_digits_of [of n] dd by simp
  from all have "is_digit d" by simp
  from next_token_digit [OF this, of l "ds @ rest"] ok tw dw n
  have "next_token l d (ds @ rest) = Some (Some (TNum n), l, rest)"
    by simp
  with dd show ?thesis by simp
qed

lemma tokenize_minus: "tokenize l (CHR ''-'' # cs) = emit TMinus (tokenize l cs)"
  by (simp add: next_token_def is_blank_def is_newline_def)

lemma tokenize_int:
  assumes "delim rest"
  shows "tokenize l (int_repr i @ rest) =
     (if i < 0 then emit TMinus (emit (TNum (nat (- i))) (tokenize l rest))
      else emit (TNum (nat i)) (tokenize l rest))"
  using tokenize_digits [OF assms]
  by (simp add: int_repr_def tokenize_minus del: tokenize.simps)

lemma hex_val_hex_char: "d < 16 \<Longrightarrow> hex_val (hex_char d) = Some d"
  by (simp add: hex_val_def hex_char_def Let_def)

lemma escape_quote_or_backslash:
  assumes "c = CHR 0x27 \<or> c = CHR 0x22 \<or> c = CHR 0x5C"
  shows "escape (c # cs) = Some ([c], cs)"
  using assms by (auto simp: escape_def is_octal_def simple_escape_def)

lemma escape_letters:
  "escape (CHR ''t'' # cs) = Some ([CHR 0x09], cs)"
  "escape (CHR ''n'' # cs) = Some ([CHR 0x0A], cs)"
  "escape (CHR ''r'' # cs) = Some ([CHR 0x0D], cs)"
  by (simp_all add: escape_def is_octal_def simple_escape_def)

lemma escape_hex: "escape (CHR ''x'' # hex_char (of_char c div 16) # hex_char (of_char c mod 16) # cs) = Some ([c], cs)"
proof -
  have a: "(of_char c :: nat) div 16 < 16"
    by (rule less_mult_imp_div_less) simp
  have b: "(of_char c :: nat) mod 16 < 16"
    by simp
  have "char_of (16 * ((of_char c :: nat) div 16) + of_char c mod 16) = c"
    by simp
  then show ?thesis
    by (simp add: escape_def hex_escape_def hex_val_hex_char [OF a] hex_val_hex_char [OF b])
qed

lemma scan_string_backslash:
  assumes "q = CHR 0x27 \<or> q = CHR 0x22"
  shows "scan_string q (CHR 0x5C # cs) =
     (case escape cs of None \<Rightarrow> None | Some (out, rest) \<Rightarrow> puts out (scan_string q rest))"
  using assms by (auto simp: is_newline_def)

lemma printable_plain: "printable c \<Longrightarrow> \<not> is_newline c \<and> c \<noteq> CHR 0x00"
  by (auto simp: printable_def is_newline_def Let_def)

lemma scan_repr_char:
  assumes q: "q = CHR 0x27 \<or> q = CHR 0x22"
  shows "scan_string q (repr_char q c @ cs) = puts [c] (scan_string q cs)"
proof -
  consider (esc) "c = q \<or> c = CHR 0x5C"
    | (tab) "c \<noteq> q" "c \<noteq> CHR 0x5C" "c = CHR 0x09"
    | (lf) "c \<noteq> q" "c \<noteq> CHR 0x5C" "c = CHR 0x0A"
    | (cr) "c \<noteq> q" "c \<noteq> CHR 0x5C" "c = CHR 0x0D"
    | (hex) "c \<noteq> q" "c \<noteq> CHR 0x5C" "c \<noteq> CHR 0x09" "c \<noteq> CHR 0x0A" "c \<noteq> CHR 0x0D" "\<not> printable c"
    | (raw) "c \<noteq> q" "c \<noteq> CHR 0x5C" "c \<noteq> CHR 0x09" "c \<noteq> CHR 0x0A" "c \<noteq> CHR 0x0D" "printable c"
    by blast
  then show ?thesis
  proof cases
    case esc
    then have r: "repr_char q c = [CHR 0x5C, c]"
      by (simp add: repr_char_def)
    from esc q have "c = CHR 0x27 \<or> c = CHR 0x22 \<or> c = CHR 0x5C"
      by auto
    then show ?thesis
      unfolding r using scan_string_backslash [OF q] by (simp add: escape_quote_or_backslash del: scan_string.simps)
  next
    case tab
    then have r: "repr_char q c = [CHR 0x5C, CHR ''t'']"
      by (simp add: repr_char_def)
    show ?thesis
      unfolding r using scan_string_backslash [OF q] tab by (simp add: escape_letters del: scan_string.simps)
  next
    case lf
    then have r: "repr_char q c = [CHR 0x5C, CHR ''n'']"
      by (simp add: repr_char_def)
    show ?thesis
      unfolding r using scan_string_backslash [OF q] lf by (simp add: escape_letters del: scan_string.simps)
  next
    case cr
    then have r: "repr_char q c = [CHR 0x5C, CHR ''r'']"
      by (simp add: repr_char_def)
    show ?thesis
      unfolding r using scan_string_backslash [OF q] cr by (simp add: escape_letters del: scan_string.simps)
  next
    case hex
    then have r: "repr_char q c = [CHR 0x5C, CHR ''x'', hex_char (of_char c div 16), hex_char (of_char c mod 16)]"
      by (simp add: repr_char_def)
    show ?thesis
      unfolding r using scan_string_backslash [OF q] by (simp add: escape_hex del: scan_string.simps)
  next
    case raw
    then have r: "repr_char q c = [c]"
      by (simp add: repr_char_def)
    show ?thesis
      unfolding r using raw printable_plain [of c] by simp
  qed
qed

lemma scan_repr:
  assumes "q = CHR 0x27 \<or> q = CHR 0x22"
  shows "scan_string q (concat (map (repr_char q) s) @ q # rest) = Some (s, rest)"
proof (induction s)
  case Nil
  show ?case by simp
next
  case (Cons c s)
  have "scan_string q (repr_char q c @ (concat (map (repr_char q) s) @ q # rest))
        = puts [c] (scan_string q (concat (map (repr_char q) s) @ q # rest))"
    using assms by (rule scan_repr_char)
  with Cons show ?case by (simp add: puts_def)
qed


lemma next_token_quote:
  assumes "q = CHR 0x27 \<or> q = CHR 0x22"
  shows "next_token l q cs =
     (if starts_with [q, q] cs then None
      else (case scan_string q cs of
              None \<Rightarrow> None
            | Some (s, rest) \<Rightarrow> Some (Some (TStr s), l, rest)))"
proof -
  have "\<not> is_blank q" "\<not> is_newline q" "q \<noteq> CHR ''{''" "q \<noteq> CHR ''[''" "q \<noteq> CHR ''}''"
    "q \<noteq> CHR '']''" "q \<noteq> CHR '',''" "q \<noteq> CHR '':''" "q \<noteq> CHR ''-''" "q \<noteq> CHR ''+''"
    "\<not> is_digit q" "\<not> is_ident_char q"
    using assms by (auto simp: is_digit_def is_blank_def is_newline_def is_ident_char_def)
  with assms show ?thesis
    by (simp add: next_token_def)
qed

lemma repr_char_hd: "q = CHR 0x27 \<or> q = CHR 0x22 \<Longrightarrow> \<not> starts_with [q, q] (repr_char q c @ cs)"
  by (auto simp: repr_char_def)

lemma tokenize_str_repr:
  assumes "delim rest"
  shows "tokenize l (str_repr s @ rest) = emit (TStr s) (tokenize l rest)"
proof -
  define q where "q = repr_quote s"
  have q: "q = CHR 0x27 \<or> q = CHR 0x22"
    by (simp add: q_def repr_quote_def)
  let ?body = "concat (map (repr_char q) s)"
  have s: "str_repr s @ rest = q # ?body @ q # rest"
    by (simp add: str_repr_def q_def Let_def)
  have ns: "\<not> starts_with [q, q] (?body @ q # rest)"
  proof (cases s)
    case Nil
    then show ?thesis using delim_facts(5,6) [OF assms] q by auto
  next
    case (Cons c s')
    then show ?thesis using repr_char_hd [OF q, of c] by simp
  qed
  have "next_token l q (?body @ q # rest) = Some (Some (TStr s), l, rest)"
    using ns scan_repr [OF q, of s rest] by (simp add: next_token_quote [OF q])
  then show ?thesis
    unfolding s by simp
qed


lemma emits_simps [simp]:
  "emits [] r = r"
  "emits (t # ts) r = emit t (emits ts r)"
  "emits (ts @ us) r = emits ts (emits us r)"
  by (cases r; simp add: emits_def emit_def)+

lemma tokenize_punct:
  "tokenize l (CHR '' '' # cs) = tokenize l cs"
  "tokenize l (CHR ''{'' # cs) = emit TLBrace (tokenize (Suc l) cs)"
  "tokenize l (CHR ''['' # cs) = emit TLBrack (tokenize (Suc l) cs)"
  "tokenize (Suc l) (CHR ''}'' # cs) = emit TRBrace (tokenize l cs)"
  "tokenize (Suc l) (CHR '']'' # cs) = emit TRBrack (tokenize l cs)"
  "tokenize l (CHR '','' # cs) = emit TComma (tokenize l cs)"
  "tokenize l (CHR '':'' # cs) = emit TColon (tokenize l cs)"
  by (simp_all add: next_token_def is_blank_def is_newline_def)

lemma tokenize_repr:
  "delim rest \<Longrightarrow> tokenize l (py_repr v @ rest) = emits (toks v) (tokenize l rest)"
  "delim rest \<Longrightarrow> tokenize l (repr_elems xs @ rest) = emits (toks_elems xs) (tokenize l rest)"
  "delim rest \<Longrightarrow> tokenize l (repr_items kvs @ rest) = emits (toks_items kvs) (tokenize l rest)"
proof (induction v and xs and kvs arbitrary: l rest and l rest and l rest
    rule: py_repr_repr_elems_repr_items.induct)
  case 1
  then show ?case using tokenize_keywords [of rest l] by (simp del: tokenize.simps)
next
  case (2 b)
  then show ?case using tokenize_keywords [of rest l] by (simp del: tokenize.simps)
next
  case (3 i)
  then show ?case by (simp add: tokenize_int del: tokenize.simps)
next
  case (4 s)
  then show ?case by (simp add: tokenize_str_repr del: tokenize.simps)
next
  case (5 xs)
  then show ?case by (simp add: tokenize_punct del: tokenize.simps)
next
  case (6 kvs)
  then show ?case by (simp add: tokenize_punct del: tokenize.simps)
next
  case 7
  then show ?case by simp
next
  case (8 x)
  then show ?case by simp
next
  case (9 x y ys)
  then show ?case by (simp add: tokenize_punct del: tokenize.simps)
next
  case 10
  then show ?case by simp
next
  case (11 k v)
  then show ?case by (simp add: tokenize_punct del: tokenize.simps)
next
  case (12 k v kv kvs)
  then show ?case by (simp add: tokenize_punct del: tokenize.simps)
qed

lemma json_safe_items_keys: "json_safe_items kvs \<Longrightarrow> (k, v) \<in> set kvs \<Longrightarrow> is_str k"
  by (induction kvs) auto

lemma key_eq_str: "is_str a \<Longrightarrow> is_str b \<Longrightarrow> key_eq a b \<longleftrightarrow> a = b"
  by (cases a; cases b) (simp_all add: key_eq_def)

lemma dict_set_fresh:
  assumes "\<And>k'. k' \<in> fst ` set d \<Longrightarrow> \<not> key_eq k' k"
  shows "dict_set d k v = d @ [(k, v)]"
  using assms by (induction d) auto

lemma build_dict_fresh:
  assumes "\<And>k. k \<in> fst ` set (d @ kvs) \<Longrightarrow> is_str k" and "distinct (map fst (d @ kvs))"
  shows "build_dict d kvs = Some (d @ kvs)"
  using assms
proof (induction kvs arbitrary: d)
  case Nil
  show ?case by simp
next
  case (Cons kv kvs)
  obtain k v where kv: "kv = (k, v)" by (cases kv)
  have sk: "is_str k"
    using Cons.prems(1) [of k] kv by simp
  then have h: "hashable k"
    by (cases k) simp_all
  have "dict_set d k v = d @ [(k, v)]"
  proof (rule dict_set_fresh)
    fix k'
    assume k': "k' \<in> fst ` set d"
    then have "is_str k'" using Cons.prems(1) [of k'] by auto
    moreover from k' Cons.prems(2) kv have "k' \<noteq> k" by auto
    ultimately show "\<not> key_eq k' k" using sk by (simp add: key_eq_str)
  qed
  moreover have "build_dict (d @ [(k, v)]) kvs = Some ((d @ [(k, v)]) @ kvs)"
  proof (rule Cons.IH)
    fix k'
    assume "k' \<in> fst ` set ((d @ [(k, v)]) @ kvs)"
    then show "is_str k'" using Cons.prems(1) [of k'] kv by auto
  next
    show "distinct (map fst ((d @ [(k, v)]) @ kvs))"
      using Cons.prems(2) kv by simp
  qed
  ultimately show ?case using h kv by simp
qed

lemma toks_hd: "\<exists>t ts. toks v = t # ts \<and> t \<noteq> TRBrack \<and> t \<noteq> TRBrace"
  by (cases v) auto

lemma next_is_toks [simp]:
  "\<not> next_is TRBrack (toks v @ r)" "\<not> next_is TRBrace (toks v @ r)"
  using toks_hd [of v] by auto

lemma parse_value_atom:
  "parse_value (Suc n) (TNone # r) = Parsed PNone r"
  "parse_value (Suc n) (TTrue # r) = Parsed (PBool True) r"
  "parse_value (Suc n) (TFalse # r) = Parsed (PBool False) r"
  "parse_value (Suc n) (TNum k # r) = Parsed (PInt (int k)) r"
  "parse_value (Suc n) (TMinus # TNum k # r) = Parsed (PInt (- int k)) r"
  "parse_value (Suc n) (TStr s # r) = Parsed (PStr s) r"
  by simp_all

lemma parse_toks:
  "json_safe v \<Longrightarrow> 2 * length (toks v) \<le> n \<Longrightarrow> parse_value n (toks v @ r) = Parsed v r"
  "json_safe_list xs \<Longrightarrow> 2 * length (toks_elems xs) + 2 \<le> n \<Longrightarrow>
     parse_elems n (toks_elems xs @ TRBrack # r) = Parsed xs r"
  "json_safe_items kvs \<Longrightarrow> 2 * length (toks_items kvs) + 2 \<le> n \<Longrightarrow>
     parse_items n (toks_items kvs @ TRBrace # r) = Parsed kvs r"
proof (induction v and xs and kvs arbitrary: n r and n r and n r
    rule: toks_toks_elems_toks_items.induct)
  case 1
  then obtain m where "n = Suc m" by (cases n) auto
  then show ?case by simp
next
  case (2 b)
  then obtain m where "n = Suc m" by (cases n) auto
  then show ?case by simp
next
  case (3 i)
  then obtain m where "n = Suc m" by (cases n) (auto split: if_splits)
  then show ?case by simp
next
  case (4 s)
  then obtain m where "n = Suc m" by (cases n) auto
  then show ?case by simp
next
  case (5 xs)
  then obtain m where m: "n = Suc m" by (cases n) auto
  with 5 have "parse_elems m (toks_elems xs @ TRBrack # r) = Parsed xs r"
    by simp
  with m show ?case by simp
next
  case (6 kvs)
  then obtain m where m: "n = Suc m" by (cases n) auto
  with 6 have "parse_items m (toks_items kvs @ TRBrace # r) = Parsed kvs r"
    by simp
  moreover have "build_dict [] kvs = Some ([] @ kvs)"
    using "6.prems"(1) by (intro build_dict_fresh) (auto dest: json_safe_items_keys)
  ultimately show ?case using m by simp
next
  case 7
  then obtain m where "n = Suc m" by (cases n) auto
  then show ?case by simp
next
  case (8 x)
  then obtain m where m: "n = Suc m" by (cases n) auto
  with 8 have "parse_value m (toks x @ TRBrack # r) = Parsed x (TRBrack # r)"
    by simp
  with m show ?case by simp
next
  case (9 x y ys)
  then obtain m where m: "n = Suc m" by (cases n) auto
  with 9 have a: "parse_value m (toks x @ TComma # toks_elems (y # ys) @ TRBrack # r)
      = Parsed x (TComma # toks_elems (y # ys) @ TRBrack # r)"
    by simp
  from m 9 have b: "parse_elems m (toks_elems (y # ys) @ TRBrack # r) = Parsed (y # ys) r"
    by simp
  from a b m show ?case by simp
next
  case 10
  then obtain m where "n = Suc m" by (cases n) auto
  then show ?case by simp
next
  case (11 k v)
  then obtain m where m: "n = Suc m" by (cases n) auto
  from "11.prems" have sk: "json_safe k"
    by (cases k) simp_all
  with m 11 have a: "parse_value m (toks k @ TColon # toks v @ TRBrace # r)
      = Parsed k (TColon # toks v @ TRBrace # r)"
    by simp
  from m 11 have b: "parse_value m (toks v @ TRBrace # r) = Parsed v (TRBrace # r)"
    by simp
  from a b m show ?case by simp
next
  case (12 k v kv kvs)
  then obtain m where m: "n = Suc m" by (cases n) auto
  from "12.prems" have sk: "json_safe k"
    by (cases k) simp_all
  with m 12 have a: "parse_value m (toks k @ TColon # toks v @ TComma # toks_items (kv # kvs) @ TRBrace # r)
      = Parsed k (TColon # toks v @ TComma # toks_items (kv # kvs) @ TRBrace # r)"
    by simp
  from m 12 have b: "parse_value m (toks v @ TComma # toks_items (kv # kvs) @ TRBrace # r)
      = Parsed v (TComma # toks_items (kv # kvs) @ TRBrace # r)"
    by simp
  from m 12 have c: "parse_items m (toks_items (kv # kvs) @ TRBrace # r) = Parsed (kv # kvs) r"
    by simp
  from a b c m show ?case by simp
qed




lemma literal_eval_tokens:
  assumes "source_start s = Some s" and "tokenize 0 s = Some (toks v)" and "json_safe v"
  shows "literal_eval s = Inr v"
proof -
  have "parse_value (2 * length (toks v) + 2) (toks v @ []) = Parsed v []"
    using assms(3) by (rule parse_toks(1)) simp
  with assms(1,2) show ?thesis
    by (simp add: literal_eval_def)
qed





lemma next_is_tl: "next_is t ts \<Longrightarrow> length (tl ts) < length ts"
  by (cases ts) auto

lemma parse_shorter:
  "(\<forall>ts v r. parse_value n ts = Parsed v r \<longrightarrow> length r < length ts)
   \<and> (\<forall>ts xs r. parse_elems n ts = Parsed xs r \<longrightarrow> length r < length ts)
   \<and> (\<forall>ts kvs r. parse_items n ts = Parsed kvs r \<longrightarrow> length r < length ts)"
proof (induction n)
  case 0
  show ?case by simp
next
  case (Suc n)
  then have iv: "\<And>ts v r. parse_value n ts = Parsed v r \<Longrightarrow> length r < length ts"
    and ie: "\<And>ts xs r. parse_elems n ts = Parsed xs r \<Longrightarrow> length r < length ts"
    and ii: "\<And>ts kvs r. parse_items n ts = Parsed kvs r \<Longrightarrow> length r < length ts"
    by blast+
  have v: "length r < length ts" if "parse_value (Suc n) ts = Parsed v r" for ts v r
  proof (cases ts)
    case Nil
    with that show ?thesis by simp
  next
    case (Cons t ts')
    show ?thesis
    proof (cases t)
      case TLBrack
      with that Cons obtain xs where "parse_elems n ts' = Parsed xs r"
        by (auto split: parsed.splits)
      from ie [OF this] Cons show ?thesis by simp
    next
      case TLBrace
      with that Cons obtain kvs where "parse_items n ts' = Parsed kvs r"
        by (auto split: parsed.splits option.splits)
      from ii [OF this] Cons show ?thesis by simp
    next
      case TMinus
      with that Cons show ?thesis by (auto split: list.splits token.splits)
    next
      case TPlus
      with that Cons show ?thesis by (auto split: list.splits token.splits)
    qed (use that Cons in auto)
  qed
  have e: "length r < length ts" if "parse_elems (Suc n) ts = Parsed xs r" for ts xs r
  proof (cases "next_is TRBrack ts")
    case True
    with that show ?thesis by (auto dest: next_is_tl)
  next
    case False
    with that obtain x r1 where p: "parse_value n ts = Parsed x r1"
      by (auto split: parsed.splits)
    from iv [OF p] have l1: "length r1 < length ts" .
    show ?thesis
    proof (cases "next_is TRBrack r1")
      case True
      with that False p have "r = tl r1" by simp
      with next_is_tl [OF True] l1 show ?thesis by simp
    next
      case nb: False
      with that False p have c: "next_is TComma r1"
        by (auto split: if_splits)
      with that False p nb obtain xs' where "parse_elems n (tl r1) = Parsed xs' r"
        by (auto split: parsed.splits)
      from ie [OF this] next_is_tl [OF c] l1 show ?thesis by simp
    qed
  qed
  have i: "length r < length ts" if "parse_items (Suc n) ts = Parsed kvs r" for ts kvs r
  proof (cases "next_is TRBrace ts")
    case True
    with that show ?thesis by (auto dest: next_is_tl)
  next
    case False
    with that obtain k r1 where p: "parse_value n ts = Parsed k r1"
      by (auto split: parsed.splits)
    from iv [OF p] have l1: "length r1 < length ts" .
    from that False p have c1: "next_is TColon r1"
      by (auto split: if_splits)
    with that False p obtain v r2 where p2: "parse_value n (tl r1) = Parsed v r2"
      by (auto split: parsed.splits)
    from iv [OF p2] next_is_tl [OF c1] l1 have l2: "length r2 < length ts" by simp
    show ?thesis
    proof (cases "next_is TRBrace r2")
      case True
      with that False p c1 p2 have "r = tl r2" by simp
      with next_is_tl [OF True] l2 show ?thesis by simp
    next
      case nb: False
      with that False p c1 p2 have c: "next_is TComma r2"
        by (auto split: if_splits)
      with that False p c1 p2 nb obtain kvs' where "parse_items n (tl r2) = Parsed kvs' r"
        by (auto split: parsed.splits)
      from ii [OF this] next_is_tl [OF c] l2 show ?thesis by simp
    qed
  qed
  from v e i show ?case by blast
qed

lemma parse_fed:
  "(\<forall>ts. 2 * length ts + 1 \<le> n \<longrightarrow> parse_value n ts \<noteq> Starved)
   \<and> (\<forall>ts. 2 * length ts + 2 \<le> n \<longrightarrow> parse_elems n ts \<noteq> Starved)
   \<and> (\<forall>ts. 2 * length ts + 2 \<le> n \<longrightarrow> parse_items n ts \<noteq> Starved)"
proof (induction n)
  case 0
  show ?case by simp
next
  case (Suc n)
  then have iv: "\<And>ts. 2 * length ts + 1 \<le> n \<Longrightarrow> parse_value n ts \<noteq> Starved"
    and ie: "\<And>ts. 2 * length ts + 2 \<le> n \<Longrightarrow> parse_elems n ts \<noteq> Starved"
    and ii: "\<And>ts. 2 * length ts + 2 \<le> n \<Longrightarrow> parse_items n ts \<noteq> Starved"
    by blast+
  note sh = parse_shorter [of n, THEN conjunct1, rule_format]
  have v: "parse_value (Suc n) ts \<noteq> Starved" if "2 * length ts + 1 \<le> Suc n" for ts
  proof (cases ts)
    case Nil
    then show ?thesis by simp
  next
    case (Cons t ts')
    with that have f: "2 * length ts' + 2 \<le> n" by simp
    show ?thesis
    proof (cases t)
      case TLBrack
      with Cons ie [OF f] show ?thesis by (simp split: parsed.splits)
    next
      case TLBrace
      with Cons ii [OF f] show ?thesis by (simp split: parsed.splits option.splits)
    next
      case TMinus
      with Cons show ?thesis by (simp split: list.splits token.splits)
    next
      case TPlus
      with Cons show ?thesis by (simp split: list.splits token.splits)
    qed (use Cons in simp_all)
  qed
  have e: "parse_elems (Suc n) ts \<noteq> Starved" if "2 * length ts + 2 \<le> Suc n" for ts
  proof (cases "next_is TRBrack ts")
    case True
    then show ?thesis by simp
  next
    case False
    from that have "2 * length ts + 1 \<le> n" by simp
    from iv [OF this] have ns: "parse_value n ts \<noteq> Starved" .
    show ?thesis
    proof (cases "parse_value n ts")
      case (Parsed x r1)
      from sh [OF this] have l1: "length r1 < length ts" .
      show ?thesis
      proof (cases "next_is TComma r1")
        case True
        from next_is_tl [OF True] l1 that have "2 * length (tl r1) + 2 \<le> n" by simp
        from ie [OF this] Parsed False show ?thesis by (simp split: parsed.splits)
      next
        case nc: False
        with Parsed False show ?thesis by simp
      qed
    next
      case Rejected
      with False show ?thesis by simp
    next
      case Starved
      with ns show ?thesis by simp
    qed
  qed
  have i: "parse_items (Suc n) ts \<noteq> Starved" if "2 * length ts + 2 \<le> Suc n" for ts
  proof (cases "next_is TRBrace ts")
    case True
    then show ?thesis by simp
  next
    case False
    from that have "2 * length ts + 1 \<le> n" by simp
    from iv [OF this] have ns: "parse_value n ts \<noteq> Starved" .
    show ?thesis
    proof (cases "parse_value n ts")
      case (Parsed k r1)
      from sh [OF this] have l1: "length r1 < length ts" .
      show ?thesis
      proof (cases "next_is TColon r1")
        case True
        from next_is_tl [OF True] l1 that have f2: "2 * length (tl r1) + 1 \<le> n" by simp
        from iv [OF this] have ns2: "parse_value n (tl r1) \<noteq> Starved" .
        show ?thesis
        proof (cases "parse_value n (tl r1)")
          case p2: (Parsed v r2)
          from sh [OF this] next_is_tl [OF True] l1 have l2: "length r2 + 1 < length ts" by simp
          show ?thesis
          proof (cases "next_is TComma r2")
            case c: True
            from next_is_tl [OF c] l2 that have "2 * length (tl r2) + 2 \<le> n" by simp
            from ii [OF this] Parsed False True p2 show ?thesis by (simp split: parsed.splits)
          next
            case nc: False
            with Parsed False True p2 show ?thesis by simp
          qed
        next
          case Rejected
          with Parsed False True show ?thesis by simp
        next
          case Starved
          with ns2 show ?thesis by simp
        qed
      next
        case nc: False
        with Parsed False show ?thesis by simp
      qed
    next
      case Rejected
      with False show ?thesis by simp
    next
      case Starved
      with ns show ?thesis by simp
    qed
  qed
  from v e i show ?case by blast
qed

lemma parse_value_fed: "parse_value (2 * length ts + 2) ts \<noteq> Starved"
  using parse_fed [of "2 * length ts + 2"] by simp

lemma py_repr_start: "\<exists>c cs. py_repr v = c # cs \<and> \<not> is_blank c \<and> \<not> is_newline c"
proof (cases v)
  case (PInt i)
  obtain d ds where dd: "digits_of (nat \<bar>i\<bar>) = d # ds"
    using digits_of_ne [of "nat \<bar>i\<bar>"] by (cases "digits_of (nat \<bar>i\<bar>)") auto
  have "is_digit d"
    using digits_of_all [of "nat \<bar>i\<bar>"] dd by simp
  then have "\<not> is_blank d \<and> \<not> is_newline d"
    by (auto simp: is_digit_def is_blank_def is_newline_def)
  with PInt dd show ?thesis
    by (cases "i < 0") (auto simp: int_repr_def is_blank_def is_newline_def abs_if)
next
  case (PStr s)
  then show ?thesis
    by (auto simp: str_repr_def repr_quote_def is_blank_def is_newline_def Let_def)
qed (auto simp: is_blank_def is_newline_def)

text \<open>The evaluator reads back what \<^verbatim>\<open>repr\<close> prints.\<close>

lemma literal_eval_repr:
  assumes "json_safe v"
  shows "literal_eval (py_repr v) = Inr v"
proof -
  obtain c cs where s: "py_repr v = c # cs" "\<not> is_blank c" "\<not> is_newline c"
    using py_repr_start [of v] by blast
  then have st: "source_start (py_repr v) = Some (py_repr v)"
    by (simp add: source_start_def)
  have "tokenize 0 (py_repr v @ []) = emits (toks v) (tokenize 0 [])"
    by (rule tokenize_repr(1)) simp
  then have "tokenize 0 (py_repr v) = Some (toks v)"
    by (simp add: emits_def)
  with st show ?thesis using assms by (rule literal_eval_tokens)
qed

section \<open>The claims about the codec\<close>






text \<open>
  C3. The text \<^verbatim>\<open><action>{'action': '__import__("os")', 'action_input': {}}</action>\<close>
  decodes to the invocation whose name is the string \<^verbatim>\<open>__import__("os")\<close> and whose
  arguments are the empty mapping. The name is a value built by the literal evaluator
  from the characters between the quotes; nothing in \<^verbatim>\<open>decode\<close> runs it.
\<close>

theorem decode_import_os_is_data:
  "decode (Text ''<action>{'action': '__import__(\"os\")', 'action_input': {}}</action>'')
   = Inr (Some (FunctionCall (PStr ''__import__(\"os\")'') (PDict [])))"
  by code_simp

text \<open>
  C4, as the code has it. For a first delimited block that evaluates to a mapping whose
  \<^verbatim>\<open>action\<close> is not \<^verbatim>\<open>"Final Answer"\<close>: if the key \<^verbatim>\<open>action_input\<close> is there, \<^verbatim>\<open>decode\<close>
  produces the invocation with name \<^verbatim>\<open>action\<close>; its arguments are never \<^verbatim>\<open>None\<close>, they
  are the \<^verbatim>\<open>action_input\<close> when that is true as Python tests it, and the empty mapping
  when it is the empty mapping or \<^verbatim>\<open>None\<close>. If the key \<^verbatim>\<open>action_input\<close> is missing,
  \<^verbatim>\<open>decode\<close> raises \<^verbatim>\<open>KeyError\<close>.
\<close>

theorem decode_invoke_arguments:
  assumes "pattern_search (text_of t) = Some blob"
    and "literal_eval blob = Inr (PDict d)"
    and "dict_get d (PStr ''action'') = Some name"
    and "name \<noteq> PStr ''Final Answer''"
  shows "(\<forall>action_input. dict_get d (PStr ''action_input'') = Some action_input \<longrightarrow>
            (\<exists>arguments. decode t = Inr (Some (FunctionCall name arguments))
               \<and> arguments \<noteq> PNone
               \<and> (truthy action_input \<longrightarrow> arguments = action_input)
               \<and> (action_input = PDict [] \<or> action_input = PNone \<longrightarrow> arguments = PDict [])))
         \<and> (dict_get d (PStr ''action_input'') = None \<longrightarrow>
              decode t = Inl (KeyError (PStr ''action_input'')))"
proof (intro conjI allI impI)
  fix action_input
  assume i: "dict_get d (PStr ''action_input'') = Some action_input"
  have "decode t = Inr (Some (FunctionCall name (if truthy action_input then action_input else PDict [])))"
    using assms i by (intro decode_call [where blob = blob and data = "PDict d"]) simp_all
  then show "\<exists>arguments. decode t = Inr (Some (FunctionCall name arguments))
               \<and> arguments \<noteq> PNone
               \<and> (truthy action_input \<longrightarrow> arguments = action_input)
               \<and> (action_input = PDict [] \<or> action_input = PNone \<longrightarrow> arguments = PDict [])"
    by (cases action_input) auto
next
  assume "dict_get d (PStr ''action_input'') = None"
  then show "decode t = Inl (KeyError (PStr ''action_input''))"
    using assms by (intro decode_no_input [where blob = blob and data = "PDict d" and name = name]) simp_all
qed

theorem decode_invoke_arguments_witness:
  "pattern_search (text_of (Text ''<action>{'action': 'search', 'action_input': None}</action>''))
     = Some ''{'action': 'search', 'action_input': None}''
   \<and> literal_eval ''{'action': 'search', 'action_input': None}''
     = Inr (PDict [(PStr ''action'', PStr ''search''), (PStr ''action_input'', PNone)])
   \<and> decode (Text ''<action>{'action': 'search', 'action_input': None}</action>'')
     = Inr (Some (FunctionCall (PStr ''search'') (PDict [])))"
proof -
  have a: "pattern_search (text_of (Text ''<action>{'action': 'search', 'action_input': None}</action>''))
     = Some ''{'action': 'search', 'action_input': None}''"
    by code_simp
  have b: "literal_eval ''{'action': 'search', 'action_input': None}''
     = Inr (PDict [(PStr ''action'', PStr ''search''), (PStr ''action_input'', PNone)])"
    by code_simp
  have c: "dict_get [(PStr ''action'', PStr ''search''), (PStr ''action_input'', PNone)] (PStr ''action'')
     = Some (PStr ''search'')"
    by (simp add: key_eq_def)
  have d: "PStr ''search'' \<noteq> PStr ''Final Answer''"
    by simp
  have e: "dict_get [(PStr ''action'', PStr ''search''), (PStr ''action_input'', PNone)]
     (PStr ''action_input'') = Some PNone"
    by (simp add: key_eq_def)
  from decode_invoke_arguments [OF a b c d] e
  have "decode (Text ''<action>{'action': 'search', 'action_input': None}</action>'')
     = Inr (Some (FunctionCall (PStr ''search'') (PDict [])))"
    by auto
  with a b show ?thesis by blast
qed

text \<open>The claim C4 as it was stated fails on a block without the key \<^verbatim>\<open>action_input\<close>:
  \<^verbatim>\<open>data["action_input"]\<close> raises \<^verbatim>\<open>KeyError\<close>.\<close>

theorem decode_missing_action_input_raises:
  "decode (Text ''<action>{'action': 'search'}</action>'') = Inl (KeyError (PStr ''action_input''))"
  by code_simp

text \<open>
  C5, as the code has it. \<^verbatim>\<open>decode\<close> looks at the first delimited block only. When no
  opening tag starts before the block and no closing tag starts inside its blob, the
  block is the one the search finds, and \<^verbatim>\<open>decode\<close> answers as it does on that block
  alone, whatever stands before and behind it: the action of the block when the block
  is well formed, the error of the block when it is not, also when a well-formed block
  follows.
\<close>

theorem decode_first_block_only:
  assumes "\<not> occurs ''<action>'' (pre @ ''<action'')"
    and "\<not> occurs ''</action>'' (blob @ ''</action'')"
  shows "pattern_search (pre @ ''<action>'' @ blob @ ''</action>'' @ post) = Some blob
         \<and> decode (Text (pre @ ''<action>'' @ blob @ ''</action>'' @ post))
           = decode (Text (''<action>'' @ blob @ ''</action>''))
         \<and> (\<forall>e. literal_eval blob = Inl e \<longrightarrow>
              decode (Text (pre @ ''<action>'' @ blob @ ''</action>'' @ post)) = Inl e)"
proof -
  have o: "\<not> occurs ''<action>'' ([] @ ''<action'')"
    by (auto simp: occurs_def append_eq_Cons_conv Cons_eq_append_conv)
  have a: "pattern_search (pre @ ''<action>'' @ blob @ ''</action>'' @ post) = Some blob"
    using assms by (rule pattern_search_at)
  have b: "pattern_search ([] @ ''<action>'' @ blob @ ''</action>'' @ []) = Some blob"
    using o assms(2) by (rule pattern_search_at)
  from a b have "decode (Text (pre @ ''<action>'' @ blob @ ''</action>'' @ post))
           = decode (Text (''<action>'' @ blob @ ''</action>''))"
    by (simp add: decode_def)
  moreover have "\<forall>e. literal_eval blob = Inl e \<longrightarrow>
              decode (Text (pre @ ''<action>'' @ blob @ ''</action>'' @ post)) = Inl e"
    using a by (simp add: decode_def)
  ultimately show ?thesis using a by blast
qed

theorem decode_first_block_only_witness:
  "\<not> occurs ''<action>'' (''say: '' @ ''<action'')
   \<and> \<not> occurs ''</action>'' (''{'' @ ''</action'')
   \<and> literal_eval ''{'' = Inl LiteralError
   \<and> decode (Text (''say: '' @ ''<action>'' @ ''{'' @ ''</action>''
        @ ''<action>{'action': 'a', 'action_input': {}}</action>'')) = Inl LiteralError"
proof -
  have a: "\<not> occurs ''<action>'' (''say: '' @ ''<action'')"
    unfolding occurs_iff by code_simp
  have b: "\<not> occurs ''</action>'' (''{'' @ ''</action'')"
    unfolding occurs_iff by code_simp
  have c: "literal_eval ''{'' = Inl LiteralError"
    by code_simp
  from decode_first_block_only [OF a b, of "''<action>{'action': 'a', 'action_input': {}}</action>''"] c
  have "decode (Text (''say: '' @ ''<action>'' @ ''{'' @ ''</action>''
        @ ''<action>{'action': 'a', 'action_input': {}}</action>'')) = Inl LiteralError"
    by blast
  with a b c show ?thesis by blast
qed

text \<open>The claim C5 as it was stated fails when the first block is malformed and a later
  one is well formed: \<^verbatim>\<open>decode\<close> raises, although the second block alone decodes.\<close>

theorem decode_malformed_first_block_raises:
  "decode (Text ''<action>{</action><action>{'action': 'a', 'action_input': {}}</action>'')
     = Inl LiteralError
   \<and> decode (Text ''<action>{'action': 'a', 'action_input': {}}</action>'')
     = Inr (Some (FunctionCall (PStr ''a'') (PDict [])))"
  by code_simp



section \<open>The claim about the prompt\<close>

lemma prompt_generator_loop_acc:
  "prompt_generator_loop log messages = messages @ prompt_generator_loop log []"
proof (induction log arbitrary: messages)
  case Nil
  show ?case by simp
next
  case (Cons m log)
  show ?case
  proof (cases m)
    case (BaseMessage r c)
    with Cons [of "messages @ [m]"] Cons [of "[] @ [m]"] show ?thesis by simp
  next
    case (FunctionResult result n a)
    with Cons [of "messages @ [SystemMessage (''Observation: '' @ py_str result)]"]
      Cons [of "[] @ [SystemMessage (''Observation: '' @ py_str result)]"]
    show ?thesis by simp
  next
    case (FunctionCall n a)
    with Cons [of messages] show ?thesis by simp
  next
    case (AgentFinish result)
    with Cons [of messages] show ?thesis by simp
  qed
qed

lemma prompt_generator_Cons:
  "prompt_generator (m # log) = prompt_generator [m] @ prompt_generator log"
  unfolding prompt_generator_def
  by (cases m) (simp_all add: prompt_generator_loop_acc [of log "[x]" for x])

lemma prompt_generator_append:
  "prompt_generator (log @ log') = prompt_generator log @ prompt_generator log'"
proof (induction log)
  case Nil
  show ?case by (simp add: prompt_generator_def)
next
  case (Cons m log)
  then show ?case
    using prompt_generator_Cons [of m "log @ log'"] prompt_generator_Cons [of m log] by simp
qed

lemma py_str_42: "py_str (PInt 42) = ''42''"
  by code_simp

text \<open>
  C7. The prompt is made entry by entry, in the order of the transcript: the prompt of
  a transcript is the concatenation of the prompts of its entries. A message entry
  yields itself, with its role and content; a result entry yields one system message
  whose content is \<^verbatim>\<open>Observation: \<close> followed by \<^verbatim>\<open>str\<close> of the result, so the result
  42 yields \<^verbatim>\<open>Observation: 42\<close>; an invocation entry and a finish entry yield nothing.
\<close>

theorem prompt_generator_pointwise:
  "prompt_generator log = concat (map (\<lambda>m. prompt_generator [m]) log)
   \<and> prompt_generator (log @ log') = prompt_generator log @ prompt_generator log'
   \<and> prompt_generator [BaseMessage r c] = [BaseMessage r c]
   \<and> prompt_generator [FunctionResult result n a]
       = [BaseMessage System (''Observation: '' @ py_str result)]
   \<and> prompt_generator [FunctionResult (PInt 42) n a] = [BaseMessage System ''Observation: 42'']
   \<and> prompt_generator [FunctionCall n a] = []
   \<and> prompt_generator [AgentFinish result] = []"
proof -
  have "prompt_generator log = concat (map (\<lambda>m. prompt_generator [m]) log)"
  proof (induction log)
    case Nil
    show ?case by (simp add: prompt_generator_def)
  next
    case (Cons m log)
    then show ?case using prompt_generator_Cons [of m log] by simp
  qed
  moreover have "prompt_generator [FunctionResult (PInt 42) n a] = [BaseMessage System ''Observation: 42'']"
    by (simp add: prompt_generator_def SystemMessage_def py_str_42 del: py_str.simps)
  ultimately show ?thesis
    by (simp add: prompt_generator_append) (simp add: prompt_generator_def SystemMessage_def)
qed

section \<open>The claims about the loop\<close>

text \<open>
  C6. \<^verbatim>\<open>run\<close> on an empty transcript raises the \<^verbatim>\<open>AssertionError\<close> of its first
  statement: the program has not been invoked, and the transcript is still empty.
\<close>

theorem run_empty_transcript_raises:
  "run self [] = \<lparr>raised = Some AssertionError, message_log = [], invocations = 0\<rparr>"
  by (simp add: run_def)


lemma run_loop_not_finish:
  assumes "log \<noteq> []" and "\<not> is_finish (last log)"
  shows "run_loop program (Suc k) log calls =
           (case program log of
              Inl e \<Rightarrow> \<lparr>raised = Some e, message_log = log, invocations = Suc calls\<rparr>
            | Inr messages \<Rightarrow> run_loop program k (log @ messages) (Suc calls))"
  using assms by (cases "last log") simp_all

lemma run_loop_finish:
  assumes "log \<noteq> []" and "last log = AgentFinish result"
  shows "run_loop program k log calls = \<lparr>raised = None, message_log = log, invocations = calls\<rparr>"
  using assms by (cases k) simp_all





text \<open>
  C9. Take a transcript seeded with one message, a budget of at least one iteration, and
  a model whose answer to the first prompt is a text that decodes to a finish, as an
  encoding with the action name \<^verbatim>\<open>Final Answer\<close> does. Then \<^verbatim>\<open>run\<close> invokes the program,
  and with it the model, exactly once, appends the model's message and then the
  \<^verbatim>\<open>AgentFinish\<close> entry, and stops without an error.
\<close>

theorem run_stops_on_final_answer:
  assumes "0 < max_iter"
    and "llm (prompt_generator [BaseMessage r c]) = Inr text"
    and "decode (Text text) = Inr (Some (AgentFinish result))"
  shows "run (ChatAgent llm tools max_iter) [BaseMessage r c]
         = \<lparr>raised = None,
            message_log = [BaseMessage r c, BaseMessage AI text, AgentFinish result],
            invocations = 1\<rparr>"
proof -
  let ?program = "create_llm_program llm prompt_generator tools decode"
  from assms(1) obtain k where k: "nat max_iter = Suc k"
    by (cases "nat max_iter") auto
  have p: "?program [BaseMessage r c] = Inr [BaseMessage AI text, AgentFinish result]"
    using assms(2,3) by (simp add: create_llm_program_def)
  have "run (ChatAgent llm tools max_iter) [BaseMessage r c]
        = run_loop ?program (Suc k) [BaseMessage r c] 0"
    by (simp add: run_def ChatAgent_def k)
  also have "\<dots> = run_loop ?program k ([BaseMessage r c] @ [BaseMessage AI text, AgentFinish result]) (Suc 0)"
    using p by (simp add: run_loop_not_finish del: run_loop.simps)
  also have "\<dots> = \<lparr>raised = None,
            message_log = [BaseMessage r c] @ [BaseMessage AI text, AgentFinish result],
            invocations = Suc 0\<rparr>"
    by (rule run_loop_finish [where result = result]) simp_all
  finally show ?thesis by simp
qed

theorem run_stops_on_final_answer_witness:
  "(0::int) < 10
   \<and> (\<lambda>p. Inr (encode_as_str (PStr ''Final Answer'') (PStr ''done''))) (prompt_generator [BaseMessage Human ''hi''])
       = (Inr ''<action>{'action': 'Final Answer', 'action_input': 'done'}</action>'' :: py_error + string)
   \<and> decode (Text ''<action>{'action': 'Final Answer', 'action_input': 'done'}</action>'')
       = Inr (Some (AgentFinish (PStr ''done'')))
   \<and> run (ChatAgent (\<lambda>p. Inr (encode_as_str (PStr ''Final Answer'') (PStr ''done''))) (\<lambda>n a. PNone) 10)
        [BaseMessage Human ''hi'']
       = \<lparr>raised = None,
          message_log = [BaseMessage Human ''hi'',
            BaseMessage AI ''<action>{'action': 'Final Answer', 'action_input': 'done'}</action>'',
            AgentFinish (PStr ''done'')],
          invocations = 1\<rparr>"
proof -
  have a: "(0::int) < 10"
    by simp
  have e: "encode_as_str (PStr ''Final Answer'') (PStr ''done'')
           = ''<action>{'action': 'Final Answer', 'action_input': 'done'}</action>''"
    by code_simp
  have b: "(\<lambda>p. Inr (encode_as_str (PStr ''Final Answer'') (PStr ''done''))) (prompt_generator [BaseMessage Human ''hi''])
       = (Inr ''<action>{'action': 'Final Answer', 'action_input': 'done'}</action>'' :: py_error + string)"
    by (simp only: e)
  have c: "decode (Text ''<action>{'action': 'Final Answer', 'action_input': 'done'}</action>'')
       = Inr (Some (AgentFinish (PStr ''done'')))"
    by code_simp
  from run_stops_on_final_answer [OF a b c, of "\<lambda>n a. PNone"] a b c
  show ?thesis by blast
qed

end
